theory Spec2Isabelle
  imports Complex_Main
begin

section \<open>Grid cells and distances\<close>

text \<open>
  A cell is the pair of integers that the Python code passes around as a tuple.
  \<open>math.dist\<close> is the Euclidean distance; the floating-point results of the
  library are idealised as real numbers.
\<close>

type_synonym cell = "int \<times> int"

definition math_dist :: "cell \<Rightarrow> cell \<Rightarrow> real" where
  "math_dist p q = sqrt (real_of_int ((fst p - fst q)\<^sup>2 + (snd p - snd q)\<^sup>2))"

definition directions :: "(int \<times> int) list" where
  "directions = [(0, 1), (0, -1), (1, 0), (-1, 0), (1, 1), (-1, -1), (1, -1), (-1, 1)]"

section \<open>The binary heap of \<open>heapq\<close>\<close>

text \<open>
  \<open>heappush\<close>, \<open>heappop\<close> and \<open>heapify\<close> work on a Python list and compare items
  with \<open>__lt__\<close> only. The model is the list algorithm of the library, over an
  arbitrary comparison \<open>lt\<close>.
\<close>

function siftdown_loop :: "('a \<Rightarrow> 'a \<Rightarrow> bool) \<Rightarrow> 'a list \<Rightarrow> 'a \<Rightarrow> nat \<Rightarrow> nat \<Rightarrow> 'a list" where
  "siftdown_loop lt heap newitem startpos pos =
     (if pos > startpos then
        (let parentpos = (pos - 1) div 2; parent = heap ! parentpos in
         if lt newitem parent
         then siftdown_loop lt (heap[pos := parent]) newitem startpos parentpos
         else heap[pos := newitem])
      else heap[pos := newitem])"
  by pat_completeness auto
termination
  by (relation "measure (\<lambda>(lt, heap, newitem, startpos, pos). pos)") auto

declare siftdown_loop.simps [simp del]

definition siftdown :: "('a \<Rightarrow> 'a \<Rightarrow> bool) \<Rightarrow> 'a list \<Rightarrow> nat \<Rightarrow> nat \<Rightarrow> 'a list" where
  "siftdown lt heap startpos pos = siftdown_loop lt heap (heap ! pos) startpos pos"

function siftup_loop :: "('a \<Rightarrow> 'a \<Rightarrow> bool) \<Rightarrow> 'a list \<Rightarrow> nat \<Rightarrow> nat \<Rightarrow> 'a list \<times> nat" where
  "siftup_loop lt heap endpos pos =
     (let childpos = 2 * pos + 1 in
      if childpos < endpos then
        (let rightpos = childpos + 1;
             childpos' = (if rightpos < endpos \<and> \<not> lt (heap ! childpos) (heap ! rightpos)
                          then rightpos else childpos)
         in siftup_loop lt (heap[pos := heap ! childpos']) endpos childpos')
      else (heap, pos))"
  by pat_completeness auto
termination
  by (relation "measure (\<lambda>(lt, heap, endpos, pos). endpos - pos)") (auto simp: Let_def)

declare siftup_loop.simps [simp del]

definition siftup :: "('a \<Rightarrow> 'a \<Rightarrow> bool) \<Rightarrow> 'a list \<Rightarrow> nat \<Rightarrow> 'a list" where
  "siftup lt heap pos =
     (let endpos = length heap; startpos = pos; newitem = heap ! pos;
          (heap', pos') = siftup_loop lt heap endpos pos
      in siftdown lt (heap'[pos' := newitem]) startpos pos')"

definition heappush :: "('a \<Rightarrow> 'a \<Rightarrow> bool) \<Rightarrow> 'a list \<Rightarrow> 'a \<Rightarrow> 'a list" where
  "heappush lt heap item = siftdown lt (heap @ [item]) 0 (length heap)"

text \<open>\<open>heappop\<close> of an empty list raises \<open>IndexError\<close>: the value \<open>None\<close>.\<close>

definition heappop :: "('a \<Rightarrow> 'a \<Rightarrow> bool) \<Rightarrow> 'a list \<Rightarrow> ('a \<times> 'a list) option" where
  "heappop lt heap =
     (if heap = [] then None
      else (let lastelt = last heap; heap' = butlast heap in
            if heap' \<noteq> [] then Some (heap' ! 0, siftup lt (heap'[0 := lastelt]) 0)
            else Some (lastelt, heap')))"

definition heapify :: "('a \<Rightarrow> 'a \<Rightarrow> bool) \<Rightarrow> 'a list \<Rightarrow> 'a list" where
  "heapify lt x = fold (\<lambda>i h. siftup lt h i) (rev [0..<length x div 2]) x"

section \<open>Variant A: \<open>APCSP_pathfinder.py\<close>\<close>

text \<open>
  A \<open>Point\<close> object. Every cell has at most one \<open>Point\<close>, the one registered in
  \<open>point_dict\<close> under the cell, so the cell serves as the address of the object:
  the heap holds addresses, the field \<open>parent\<close> holds an address or \<open>None\<close>, and
  the dictionary is the store the objects live in.
\<close>

record Point_A =
  x_A :: int
  y_A :: int
  dist_to_start_A :: real
  dist_to_end_A :: real
  visited_A :: bool
  parent_A :: "cell option"

definition Point_lt_A :: "Point_A \<Rightarrow> Point_A \<Rightarrow> bool" where
  "Point_lt_A self other \<longleftrightarrow>
     (dist_to_start_A self + dist_to_end_A self) < (dist_to_start_A self + dist_to_end_A other)"

type_synonym store_A = "cell \<rightharpoonup> Point_A"

definition lt_A :: "store_A \<Rightarrow> cell \<Rightarrow> cell \<Rightarrow> bool" where
  "lt_A pd a b = Point_lt_A (the (pd a)) (the (pd b))"

fun neighbors_loop_A :: "Point_A \<Rightarrow> cell list \<Rightarrow> int \<Rightarrow> int \<Rightarrow> (int \<times> int) list \<Rightarrow> cell list \<Rightarrow> cell list" where
  "neighbors_loop_A p obstacles N M [] good_neighbors = good_neighbors"
| "neighbors_loop_A p obstacles N M (d # ds) good_neighbors =
     (let x = x_A p + fst d; y = y_A p + snd d in
      if (x, y) \<in> set obstacles \<or> x \<le> 0 \<or> y \<le> 0 \<or> x \<ge> N \<or> y \<ge> M
      then neighbors_loop_A p obstacles N M ds good_neighbors
      else neighbors_loop_A p obstacles N M ds (good_neighbors @ [(x, y)]))"

definition neighbors_A :: "Point_A \<Rightarrow> cell list \<Rightarrow> int \<Rightarrow> int \<Rightarrow> cell list" where
  "neighbors_A p obstacles N M = neighbors_loop_A p obstacles N M directions []"

text \<open>
  \<open>retrace_steps\<close> follows \<open>parent\<close> until it is \<open>None\<close>. Nothing in the loop
  bounds the walk, so the model is a partial function: \<open>None\<close> is a walk that
  never ends.
\<close>

partial_function (option) retrace_loop_A :: "store_A \<Rightarrow> cell option \<Rightarrow> cell list \<Rightarrow> cell list option" where
  "retrace_loop_A pd current path =
     (case current of
        None \<Rightarrow> Some (rev path)
      | Some c \<Rightarrow> retrace_loop_A pd (parent_A (the (pd c)))
                    (path @ [(x_A (the (pd c)), y_A (the (pd c)))]))"

definition retrace_steps_A :: "store_A \<Rightarrow> cell \<Rightarrow> cell list option" where
  "retrace_steps_A pd p = retrace_loop_A pd (Some p) []"

record search_A =
  candidates_A :: "cell list"
  point_dict_A :: store_A

text \<open>The body of the loop over \<open>my_neighbors\<close>, for one neighbour \<open>n\<close>.\<close>

definition visit_A :: "cell \<Rightarrow> cell \<Rightarrow> cell \<Rightarrow> search_A \<Rightarrow> search_A" where
  "visit_A end current n s =
     (let pd = point_dict_A s; cur = the (pd current) in
      case pd n of
        Some p \<Rightarrow>
          if visited_A p then s
          else
            (let offered_dist_to_start = dist_to_start_A cur + math_dist n (x_A cur, y_A cur) in
             if offered_dist_to_start \<ge> dist_to_start_A p then s
             else
               (let pd' = pd(n \<mapsto> p\<lparr>dist_to_start_A := offered_dist_to_start,
                                     dist_to_end_A := math_dist n end,
                                     parent_A := Some current\<rparr>)
                in \<lparr>candidates_A = heapify (lt_A pd') (candidates_A s), point_dict_A = pd'\<rparr>))
      | None \<Rightarrow>
          (let p = \<lparr>x_A = fst n, y_A = snd n,
                    dist_to_start_A = math_dist (x_A cur, y_A cur) n,
                    dist_to_end_A = math_dist n end,
                    visited_A = False, parent_A = Some current\<rparr>;
               pd' = pd((x_A p, y_A p) \<mapsto> p)
           in \<lparr>candidates_A = heappush (lt_A pd') (candidates_A s) (x_A p, y_A p),
               point_dict_A = pd'\<rparr>))"

text \<open>Pop the least candidate and mark it visited.\<close>

definition pop_A :: "search_A \<Rightarrow> (cell \<times> search_A) option" where
  "pop_A s =
     (case heappop (lt_A (point_dict_A s)) (candidates_A s) of
        None \<Rightarrow> None
      | Some (current, heap) \<Rightarrow>
          Some (current,
                \<lparr>candidates_A = heap,
                 point_dict_A = (point_dict_A s)(current \<mapsto> (the (point_dict_A s current))\<lparr>visited_A := True\<rparr>)\<rparr>))"

definition expand_A :: "cell \<Rightarrow> cell list \<Rightarrow> int \<Rightarrow> int \<Rightarrow> cell \<Rightarrow> search_A \<Rightarrow> search_A" where
  "expand_A end obstacles N M current s =
     fold (visit_A end current) (neighbors_A (the (point_dict_A s current)) obstacles N M) s"

subsection \<open>The heap operations keep the length and add no element\<close>

lemma length_siftdown_loop [simp]:
  "length (siftdown_loop lt heap newitem startpos pos) = length heap"
  by (induction lt heap newitem startpos pos rule: siftdown_loop.induct)
     (subst siftdown_loop.simps, simp add: Let_def)

lemma length_siftdown [simp]: "length (siftdown lt heap startpos pos) = length heap"
  by (simp add: siftdown_def)

lemma length_siftup_loop [simp]:
  "length (fst (siftup_loop lt heap endpos pos)) = length heap"
  by (induction lt heap endpos pos rule: siftup_loop.induct)
     (subst siftup_loop.simps, simp add: Let_def)

lemma length_siftup [simp]: "length (siftup lt heap pos) = length heap"
  by (simp add: siftup_def Let_def split_beta)

lemma length_heappush [simp]: "length (heappush lt heap item) = Suc (length heap)"
  by (simp add: heappush_def)

lemma length_heapify [simp]: "length (heapify lt x) = length x"
proof -
  have "length (fold (\<lambda>i h. siftup lt h i) is h) = length h" for "is" h
    by (induction "is" arbitrary: h) simp_all
  then show ?thesis by (simp add: heapify_def)
qed

lemma length_heappop:
  "heappop lt heap = Some (c, heap') \<Longrightarrow> Suc (length heap') = length heap"
  by (cases heap rule: rev_cases) (auto simp: heappop_def Let_def split: if_splits)

lemma set_siftdown_loop:
  "set (siftdown_loop lt heap newitem startpos pos) \<subseteq> insert newitem (set heap)"
proof (induction lt heap newitem startpos pos rule: siftdown_loop.induct)
  case (1 lt heap newitem startpos pos)
  show ?case
  proof (cases "pos > startpos \<and> lt newitem (heap ! ((pos - 1) div 2))")
    case True
    then have "(pos - 1) div 2 < length heap \<or> length heap \<le> pos" by linarith
    have a: "set (heap[pos := heap ! ((pos - 1) div 2)]) \<subseteq> set heap"
    proof (cases "pos < length heap")
      case True
      then have "(pos - 1) div 2 < length heap" by linarith
      then have "heap ! ((pos - 1) div 2) \<in> set heap" by simp
      then show ?thesis using set_update_subset_insert [of heap pos] by blast
    next
      case False
      then show ?thesis by (simp add: list_update_beyond)
    qed
    from True 1 have "set (siftdown_loop lt (heap[pos := heap ! ((pos - 1) div 2)]) newitem startpos ((pos - 1) div 2))
        \<subseteq> insert newitem (set (heap[pos := heap ! ((pos - 1) div 2)]))"
      by simp
    with a True show ?thesis
      by (subst siftdown_loop.simps) (auto simp: Let_def)
  next
    case False
    then show ?thesis
      using set_update_subset_insert [of heap pos newitem]
      by (subst siftdown_loop.simps) (auto simp: Let_def)
  qed
qed

lemma set_siftdown:
  "pos < length heap \<Longrightarrow> set (siftdown lt heap startpos pos) \<subseteq> set heap"
  using set_siftdown_loop [of lt heap "heap ! pos" startpos pos] by (auto simp: siftdown_def)

lemma set_siftup_loop:
  "endpos \<le> length heap \<Longrightarrow> set (fst (siftup_loop lt heap endpos pos)) \<subseteq> set heap"
proof (induction lt heap endpos pos rule: siftup_loop.induct)
  case (1 lt heap endpos pos)
  show ?case
  proof (cases "2 * pos + 1 < endpos")
    case True
    define c where "c = (if 2 * pos + 1 + 1 < endpos \<and> \<not> lt (heap ! (2 * pos + 1)) (heap ! (2 * pos + 1 + 1))
                          then 2 * pos + 1 + 1 else 2 * pos + 1)"
    have eq: "siftup_loop lt heap endpos pos = siftup_loop lt (heap[pos := heap ! c]) endpos c"
      unfolding c_def using True by (intro trans [OF siftup_loop.simps]) (simp add: Let_def)
    have c: "c < length heap" using True 1(2) by (auto simp: c_def)
    then have sub: "set (heap[pos := heap ! c]) \<subseteq> set heap"
      using set_update_subset_insert [of heap pos "heap ! c"] by auto
    have "set (fst (siftup_loop lt (heap[pos := heap ! c]) endpos c)) \<subseteq> set (heap[pos := heap ! c])"
      using 1(1) [OF refl True refl c_def] 1(2) by simp
    with sub have "set (fst (siftup_loop lt (heap[pos := heap ! c]) endpos c)) \<subseteq> set heap" by blast
    then show ?thesis by (simp add: eq)
  next
    case False
    then show ?thesis by (subst siftup_loop.simps) (simp add: Let_def)
  qed
qed

lemma snd_siftup_loop:
  "pos < endpos \<Longrightarrow> snd (siftup_loop lt heap endpos pos) < endpos"
proof (induction lt heap endpos pos rule: siftup_loop.induct)
  case (1 lt heap endpos pos)
  show ?case
  proof (cases "2 * pos + 1 < endpos")
    case True
    define c where "c = (if 2 * pos + 1 + 1 < endpos \<and> \<not> lt (heap ! (2 * pos + 1)) (heap ! (2 * pos + 1 + 1))
                          then 2 * pos + 1 + 1 else 2 * pos + 1)"
    have eq: "siftup_loop lt heap endpos pos = siftup_loop lt (heap[pos := heap ! c]) endpos c"
      unfolding c_def using True by (intro trans [OF siftup_loop.simps]) (simp add: Let_def)
    have c: "c < endpos" using True by (auto simp: c_def)
    have "snd (siftup_loop lt (heap[pos := heap ! c]) endpos c) < endpos"
      using 1(1) [OF refl True refl c_def c] .
    then show ?thesis by (simp add: eq)
  next
    case False
    then show ?thesis using 1(2) by (subst siftup_loop.simps) (simp add: Let_def)
  qed
qed

lemma set_siftup:
  assumes "pos < length heap"
  shows "set (siftup lt heap pos) \<subseteq> set heap"
proof -
  obtain h' p' where hp: "siftup_loop lt heap (length heap) pos = (h', p')" by force
  have 1: "set h' \<subseteq> set heap" using set_siftup_loop [of "length heap" heap lt pos] hp by simp
  have 2: "p' < length heap" using snd_siftup_loop [OF assms, of lt heap] hp by simp
  have 3: "length h' = length heap" using length_siftup_loop [of lt heap "length heap" pos] hp by simp
  have "set (h'[p' := heap ! pos]) \<subseteq> insert (heap ! pos) (set h')"
    by (rule set_update_subset_insert)
  with 1 assms have 4: "set (h'[p' := heap ! pos]) \<subseteq> set heap" by auto
  have "set (siftdown lt (h'[p' := heap ! pos]) pos p') \<subseteq> set (h'[p' := heap ! pos])"
    by (rule set_siftdown) (simp add: 2 3)
  with 4 show ?thesis by (simp add: siftup_def Let_def hp)
qed

lemma set_heappush: "set (heappush lt heap item) \<subseteq> insert item (set heap)"
  using set_siftdown [of "length heap" "heap @ [item]" lt 0] by (auto simp: heappush_def)

lemma set_heapify: "set (heapify lt x) \<subseteq> set x"
proof -
  have *: "\<forall>i \<in> set is. i < length h \<Longrightarrow> set (fold (\<lambda>i h. siftup lt h i) is h) \<subseteq> set h" for "is" h
  proof (induction "is" arbitrary: h)
    case Nil
    then show ?case by simp
  next
    case (Cons i "is")
    have "set (siftup lt h i) \<subseteq> set h" using Cons.prems by (simp add: set_siftup)
    moreover have "set (fold (\<lambda>i h. siftup lt h i) is (siftup lt h i)) \<subseteq> set (siftup lt h i)"
      using Cons.prems by (intro Cons.IH) simp
    ultimately show ?case by auto
  qed
  have "\<forall>i \<in> set (rev [0..<length x div 2]). i < length x" by auto
  from * [OF this] show ?thesis by (simp add: heapify_def)
qed

lemma heappop_Some:
  assumes "heappop lt heap = Some (c, heap')"
  shows "c \<in> set heap" and "set heap' \<subseteq> set heap"
proof -
  from assms have ne: "heap \<noteq> []" by (auto simp: heappop_def split: if_splits)
  then obtain xs z where heap: "heap = xs @ [z]" by (cases heap rule: rev_cases) auto
  show "c \<in> set heap"
    using assms heap by (cases xs) (auto simp: heappop_def Let_def split: if_splits)
  show "set heap' \<subseteq> set heap"
  proof (cases xs)
    case Nil
    then show ?thesis using assms heap by (auto simp: heappop_def Let_def)
  next
    case (Cons a as)
    then have "heap' = siftup lt (xs[0 := z]) 0" using assms heap by (auto simp: heappop_def Let_def)
    moreover have "set (siftup lt (xs[0 := z]) 0) \<subseteq> set (xs[0 := z])"
      by (rule set_siftup) (simp add: Cons)
    moreover have "set (xs[0 := z]) \<subseteq> insert z (set xs)" by (rule set_update_subset_insert)
    ultimately show ?thesis using heap by auto
  qed
qed


subsection \<open>Termination of the search loop\<close>

definition valid_step_A :: "cell list \<Rightarrow> int \<Rightarrow> int \<Rightarrow> cell \<Rightarrow> cell \<Rightarrow> bool" where
  "valid_step_A obstacles N M a b \<longleftrightarrow>
     b \<notin> set obstacles \<and> 0 < fst b \<and> fst b < N \<and> 0 < snd b \<and> snd b < M \<and>
     (fst b - fst a, snd b - snd a) \<in> set directions"

definition search_measure :: "int \<Rightarrow> int \<Rightarrow> cell list \<Rightarrow> (cell \<rightharpoonup> 'p) \<Rightarrow> nat" where
  "search_measure N M heap pd = 2 * card (({0<..<N} \<times> {0<..<M}) - dom pd) + length heap"

lemma neighbors_loop_A_sound:
  "c \<in> set (neighbors_loop_A p obstacles N M ds acc) \<Longrightarrow>
   c \<in> set acc \<or>
   (c \<notin> set obstacles \<and> 0 < fst c \<and> fst c < N \<and> 0 < snd c \<and> snd c < M \<and>
    (fst c - x_A p, snd c - y_A p) \<in> set ds)"
proof (induction ds arbitrary: acc)
  case Nil
  then show ?case by simp
next
  case (Cons d ds)
  let ?x = "x_A p + fst d" and ?y = "y_A p + snd d"
  show ?case
  proof (cases "(?x, ?y) \<in> set obstacles \<or> ?x \<le> 0 \<or> ?y \<le> 0 \<or> ?x \<ge> N \<or> ?y \<ge> M")
    case True
    then have "c \<in> set (neighbors_loop_A p obstacles N M ds acc)"
      using Cons.prems by (simp add: Let_def)
    from Cons.IH [OF this] show ?thesis by auto
  next
    case False
    then have "c \<in> set (neighbors_loop_A p obstacles N M ds (acc @ [(?x, ?y)]))"
      using Cons.prems by (simp add: Let_def)
    from Cons.IH [OF this] consider "c \<in> set acc" | "c = (?x, ?y)"
      | "c \<notin> set obstacles \<and> 0 < fst c \<and> fst c < N \<and> 0 < snd c \<and> snd c < M \<and>
         (fst c - x_A p, snd c - y_A p) \<in> set ds"
      by auto
    then show ?thesis
    proof cases
      case 1
      then show ?thesis by simp
    next
      case 2
      have "(fst c - x_A p, snd c - y_A p) = d" by (simp add: 2)
      then show ?thesis using False 2 by auto
    next
      case 3
      then show ?thesis by simp
    qed
  qed
qed

lemma neighbors_A_sound:
  "c \<in> set (neighbors_A p obstacles N M) \<Longrightarrow> valid_step_A obstacles N M (x_A p, y_A p) c"
  using neighbors_loop_A_sound [of c p obstacles N M directions "[]"]
  by (simp add: neighbors_A_def valid_step_A_def)

lemma search_measure_insert:
  assumes "n \<in> {0<..<N} \<times> {0<..<M}" "n \<notin> dom pd" "length heap' = Suc (length heap)"
  shows "search_measure N M heap' (pd(n \<mapsto> v)) < search_measure N M heap pd"
proof -
  let ?G = "{0<..<N} \<times> {0<..<M}"
  have fin: "finite (?G - dom pd)" by simp
  have mem: "n \<in> ?G - dom pd" using assms by simp
  have "?G - dom (pd(n \<mapsto> v)) = (?G - dom pd) - {n}" by auto
  then have "card (?G - dom (pd(n \<mapsto> v))) = card (?G - dom pd) - 1"
    using fin mem by simp
  moreover have "card (?G - dom pd) > 0" using fin mem card_gt_0_iff by blast
  ultimately show ?thesis using assms(3) by (simp add: search_measure_def)
qed

lemma search_measure_update:
  assumes "n \<in> dom pd" "length heap' = length heap"
  shows "search_measure N M heap' (pd(n \<mapsto> v)) = search_measure N M heap pd"
proof -
  have "dom (pd(n \<mapsto> v)) = dom pd" using assms(1) by auto
  then show ?thesis using assms(2) by (simp add: search_measure_def)
qed

lemma visit_A_measure:
  assumes "n \<in> {0<..<N} \<times> {0<..<M}"
  shows "search_measure N M (candidates_A (visit_A end current n s)) (point_dict_A (visit_A end current n s))
         \<le> search_measure N M (candidates_A s) (point_dict_A s)"
proof (cases "point_dict_A s n")
  case None
  then have "n \<notin> dom (point_dict_A s)" by auto
  from search_measure_insert [OF assms this, of "heappush lt (candidates_A s) n" "candidates_A s" v for lt v]
  show ?thesis using None by (simp add: visit_A_def Let_def less_imp_le)
next
  case (Some p)
  then have "n \<in> dom (point_dict_A s)" by auto
  from search_measure_update [OF this, of "heapify lt (candidates_A s)" "candidates_A s" N M v for lt v]
  show ?thesis using Some by (simp add: visit_A_def Let_def)
qed

lemma fold_visit_A_measure:
  assumes "set ns \<subseteq> {0<..<N} \<times> {0<..<M}"
  shows "search_measure N M (candidates_A (fold (visit_A end current) ns s))
           (point_dict_A (fold (visit_A end current) ns s))
         \<le> search_measure N M (candidates_A s) (point_dict_A s)"
  using assms
proof (induction ns arbitrary: s)
  case Nil
  then show ?case by simp
next
  case (Cons n ns)
  have "search_measure N M (candidates_A (fold (visit_A end current) ns (visit_A end current n s)))
           (point_dict_A (fold (visit_A end current) ns (visit_A end current n s)))
         \<le> search_measure N M (candidates_A (visit_A end current n s)) (point_dict_A (visit_A end current n s))"
    using Cons.prems by (intro Cons.IH) simp
  also have "\<dots> \<le> search_measure N M (candidates_A s) (point_dict_A s)"
    using Cons.prems by (intro visit_A_measure) simp
  finally show ?case by simp
qed

lemma neighbors_A_interior: "set (neighbors_A p obstacles N M) \<subseteq> {0<..<N} \<times> {0<..<M}"
  using neighbors_A_sound [of _ p obstacles N M] by (auto simp: valid_step_A_def)

lemma expand_A_measure:
  "search_measure N M (candidates_A (expand_A end obstacles N M current s))
           (point_dict_A (expand_A end obstacles N M current s))
         \<le> search_measure N M (candidates_A s) (point_dict_A s)"
  unfolding expand_A_def by (rule fold_visit_A_measure) (rule neighbors_A_interior)

lemma pop_A_measure:
  assumes "pop_A s = Some (current, s')"
  shows "search_measure N M (candidates_A s') (point_dict_A s')
         < search_measure N M (candidates_A s) (point_dict_A s)"
proof -
  obtain heap where hp: "heappop (lt_A (point_dict_A s)) (candidates_A s) = Some (current, heap)"
    and s': "s' = \<lparr>candidates_A = heap,
                 point_dict_A = (point_dict_A s)(current \<mapsto> (the (point_dict_A s current))\<lparr>visited_A := True\<rparr>)\<rparr>"
    using assms by (auto simp: pop_A_def split: option.splits)
  have len: "Suc (length heap) = length (candidates_A s)" using hp by (rule length_heappop)
  have "({0<..<N} \<times> {0<..<M}) - dom (point_dict_A s') \<subseteq> ({0<..<N} \<times> {0<..<M}) - dom (point_dict_A s)"
    by (auto simp: s')
  then have "card (({0<..<N} \<times> {0<..<M}) - dom (point_dict_A s')) \<le> card (({0<..<N} \<times> {0<..<M}) - dom (point_dict_A s))"
    by (intro card_mono) simp_all
  then show ?thesis using len by (simp add: search_measure_def s')
qed

function navigate_loop_A :: "cell \<Rightarrow> cell list \<Rightarrow> int \<Rightarrow> int \<Rightarrow> search_A \<Rightarrow> cell list option" where
  "navigate_loop_A end obstacles N M s =
     (if candidates_A s = [] then Some []
      else
        (case pop_A s of
           None \<Rightarrow> None
         | Some (current, s') \<Rightarrow>
             (let cur = the (point_dict_A s' current) in
              if x_A cur = fst end \<and> y_A cur = snd end
              then retrace_steps_A (point_dict_A s') current
              else navigate_loop_A end obstacles N M (expand_A end obstacles N M current s'))))"
  by pat_completeness auto
termination
proof (relation "measure (\<lambda>(end, obstacles, N, M, s). search_measure N M (candidates_A s) (point_dict_A s))")
  show "wf (measure (\<lambda>(end, obstacles, N, M, s). search_measure N M (candidates_A s) (point_dict_A s)))"
    by simp
next
  fix "end" :: cell and obstacles :: "cell list" and N M :: int and s :: search_A
    and x2 :: "cell \<times> search_A" and current s' xa
  assume "pop_A s = Some x2" "(current, s') = x2"
  then have "pop_A s = Some (current, s')" by simp
  from pop_A_measure [OF this, of N M] expand_A_measure [of N M "end" obstacles current s']
  show "((end, obstacles, N, M, expand_A end obstacles N M current s'), end, obstacles, N, M, s)
        \<in> measure (\<lambda>(end, obstacles, N, M, s). search_measure N M (candidates_A s) (point_dict_A s))"
    by simp
qed

declare navigate_loop_A.simps [simp del]

definition navigate_A :: "cell \<Rightarrow> cell \<Rightarrow> cell list \<Rightarrow> int \<Rightarrow> int \<Rightarrow> cell list option" where
  "navigate_A start end obstacles N M =
     (let start_point = \<lparr>x_A = fst start, y_A = snd start, dist_to_start_A = 0,
                         dist_to_end_A = math_dist start end, visited_A = False, parent_A = None\<rparr>
      in navigate_loop_A end obstacles N M
           \<lparr>candidates_A = [start], point_dict_A = [start \<mapsto> start_point]\<rparr>)"

subsection \<open>Paths and the invariant of the search\<close>

fun steps_ok :: "(cell \<Rightarrow> cell \<Rightarrow> bool) \<Rightarrow> cell list \<Rightarrow> bool" where
  "steps_ok R [] \<longleftrightarrow> True"
| "steps_ok R [a] \<longleftrightarrow> True"
| "steps_ok R (a # b # rest) \<longleftrightarrow> R a b \<and> steps_ok R (b # rest)"

lemma steps_ok_snoc:
  "steps_ok R (ps @ [c]) \<longleftrightarrow> steps_ok R ps \<and> (ps = [] \<or> R (last ps) c)"
  by (induction R ps rule: steps_ok.induct) auto

text \<open>
  \<open>trail_A start obstacles N M pd c ps\<close>: following \<open>parent\<close> from the object at \<open>c\<close>
  ends at the start object, \<open>ps\<close> is the list of cells met, from the start to \<open>c\<close>,
  every object on the way but \<open>c\<close> itself is visited, and every link is a move that
  \<open>neighbors\<close> allows.
\<close>

inductive trail_A :: "cell \<Rightarrow> cell list \<Rightarrow> int \<Rightarrow> int \<Rightarrow> store_A \<Rightarrow> cell \<Rightarrow> cell list \<Rightarrow> bool"
  for start obstacles N M pd where
  trail_root: "pd start = Some p \<Longrightarrow> parent_A p = None \<Longrightarrow> trail_A start obstacles N M pd start [start]"
| trail_step: "pd c = Some p \<Longrightarrow> parent_A p = Some q \<Longrightarrow> pd q = Some pq \<Longrightarrow> visited_A pq \<Longrightarrow>
     valid_step_A obstacles N M q c \<Longrightarrow> trail_A start obstacles N M pd q ps \<Longrightarrow>
     trail_A start obstacles N M pd c (ps @ [c])"

lemma trail_A_last: "trail_A start obstacles N M pd c ps \<Longrightarrow> ps \<noteq> [] \<and> last ps = c \<and> hd ps = start"
  by (induction rule: trail_A.induct) auto

lemma trail_A_dom: "trail_A start obstacles N M pd c ps \<Longrightarrow> set ps \<subseteq> dom pd"
  by (induction rule: trail_A.induct) auto

lemma trail_A_visited:
  "trail_A start obstacles N M pd c ps \<Longrightarrow> a \<in> set ps \<Longrightarrow>
   a = c \<or> (\<exists>pa. pd a = Some pa \<and> visited_A pa)"
proof (induction rule: trail_A.induct)
  case (trail_root p)
  then show ?case by simp
next
  case (trail_step c p q pq ps)
  show ?case
  proof (cases "a = c")
    case True
    then show ?thesis by simp
  next
    case False
    then have "a \<in> set ps" using trail_step.prems by simp
    from trail_step.IH [OF this] trail_step.hyps(3,4) show ?thesis by blast
  qed
qed

lemma trail_A_steps:
  "trail_A start obstacles N M pd c ps \<Longrightarrow> steps_ok (valid_step_A obstacles N M) ps"
proof (induction rule: trail_A.induct)
  case (trail_root p)
  then show ?case by simp
next
  case (trail_step c p q pq ps)
  then show ?case by (auto simp: steps_ok_snoc dest: trail_A_last)
qed

lemma trail_A_mono:
  assumes "trail_A start obstacles N M pd c ps"
    and "\<And>a p. a \<in> set ps \<Longrightarrow> pd a = Some p \<Longrightarrow>
           \<exists>p'. pd' a = Some p' \<and> parent_A p' = parent_A p \<and> (visited_A p \<longrightarrow> visited_A p')"
  shows "trail_A start obstacles N M pd' c ps"
  using assms
proof (induction rule: trail_A.induct)
  case (trail_root p)
  from trail_root(3) [of start p] trail_root(1,2) show ?case
    by (auto intro: trail_A.trail_root)
next
  case (trail_step c p q pq ps)
  have q: "q \<in> set ps" using trail_step.hyps(6) trail_A_last by fastforce
  obtain p' where p': "pd' c = Some p'" "parent_A p' = Some q"
    using trail_step.prems [of c p] trail_step.hyps(1,2) by auto
  obtain pq' where pq': "pd' q = Some pq'" "visited_A pq'"
    using trail_step.prems [of q pq] trail_step.hyps(3,4) q by auto
  have "trail_A start obstacles N M pd' q ps"
    using trail_step.prems by (intro trail_step.IH) auto
  with p' pq' trail_step.hyps(5) show ?case by (auto intro: trail_A.trail_step)
qed

lemma retrace_loop_A_trail:
  assumes "trail_A start obstacles N M pd c ps"
    and "\<And>k p. pd k = Some p \<Longrightarrow> (x_A p, y_A p) = k"
  shows "retrace_loop_A pd (Some c) acc = Some (ps @ rev acc)"
  using assms(1)
proof (induction arbitrary: acc rule: trail_A.induct)
  case (trail_root p)
  have "(x_A p, y_A p) = start" using assms(2) trail_root(1) by simp
  then show ?case using trail_root
    by (subst retrace_loop_A.simps, simp, subst retrace_loop_A.simps, simp)
next
  case (trail_step c p q pq ps)
  have "(x_A p, y_A p) = c" using assms(2) trail_step.hyps(1) by simp
  then show ?case using trail_step.hyps(1,2) trail_step.IH [of "acc @ [c]"]
    by (subst retrace_loop_A.simps) simp
qed

definition inv_A :: "cell \<Rightarrow> cell list \<Rightarrow> int \<Rightarrow> int \<Rightarrow> search_A \<Rightarrow> bool" where
  "inv_A start obstacles N M s \<longleftrightarrow>
     (\<forall>k p. point_dict_A s k = Some p \<longrightarrow> (x_A p, y_A p) = k) \<and>
     set (candidates_A s) \<subseteq> dom (point_dict_A s) \<and>
     (\<forall>k \<in> dom (point_dict_A s). \<exists>ps. trail_A start obstacles N M (point_dict_A s) k ps)"

lemma inv_A_keys: "inv_A start obstacles N M s \<Longrightarrow> point_dict_A s k = Some p \<Longrightarrow> (x_A p, y_A p) = k"
  unfolding inv_A_def by blast

lemma inv_A_trail:
  "inv_A start obstacles N M s \<Longrightarrow> point_dict_A s k = Some p \<Longrightarrow>
   \<exists>ps. trail_A start obstacles N M (point_dict_A s) k ps"
  unfolding inv_A_def by blast

lemma visit_A_inv:
  assumes inv: "inv_A start obstacles N M s"
    and cur: "point_dict_A s current = Some pc" "visited_A pc"
    and n: "valid_step_A obstacles N M current n"
  shows "inv_A start obstacles N M (visit_A end current n s) \<and>
         (\<exists>pc'. point_dict_A (visit_A end current n s) current = Some pc' \<and> visited_A pc')"
proof -
  let ?pd = "point_dict_A s"
  have keys: "\<And>k p. ?pd k = Some p \<Longrightarrow> (x_A p, y_A p) = k"
    and heap: "set (candidates_A s) \<subseteq> dom ?pd"
    and trails: "\<And>k. k \<in> dom ?pd \<Longrightarrow> \<exists>ps. trail_A start obstacles N M ?pd k ps"
    using inv by (auto simp: inv_A_def)
  obtain psc where psc: "trail_A start obstacles N M ?pd current psc"
    using trails [of current] cur by auto
  have psc_vis: "\<exists>pa. ?pd a = Some pa \<and> visited_A pa" if "a \<in> set psc" for a
    using trail_A_visited [OF psc that] cur by blast
  show ?thesis
  proof (cases "?pd n")
    case None
    define p where "p = \<lparr>x_A = fst n, y_A = snd n,
                    dist_to_start_A = math_dist (x_A pc, y_A pc) n,
                    dist_to_end_A = math_dist n end,
                    visited_A = False, parent_A = Some current\<rparr>"
    define pd' where "pd' = ?pd(n \<mapsto> p)"
    have v: "visit_A end current n s =
        \<lparr>candidates_A = heappush (lt_A pd') (candidates_A s) n, point_dict_A = pd'\<rparr>"
      using None cur by (simp add: visit_A_def Let_def p_def pd'_def)
    have ncur: "n \<noteq> current" using None cur by auto
    have mono: "trail_A start obstacles N M pd' k ps" if "trail_A start obstacles N M ?pd k ps" for k ps
    proof (rule trail_A_mono [OF that])
      fix a q assume "a \<in> set ps" "?pd a = Some q"
      then have "a \<noteq> n" using None by auto
      then show "\<exists>p'. pd' a = Some p' \<and> parent_A p' = parent_A q \<and> (visited_A q \<longrightarrow> visited_A p')"
        using \<open>?pd a = Some q\<close> by (simp add: pd'_def)
    qed
    have tn: "trail_A start obstacles N M pd' n (psc @ [n])"
    proof (rule trail_A.trail_step)
      show "pd' n = Some p" by (simp add: pd'_def)
      show "parent_A p = Some current" by (simp add: p_def)
      show "pd' current = Some pc" using ncur cur by (simp add: pd'_def)
      show "visited_A pc" by fact
      show "valid_step_A obstacles N M current n" by fact
      show "trail_A start obstacles N M pd' current psc" using psc by (rule mono)
    qed
    have t: "\<forall>k \<in> dom pd'. \<exists>ps. trail_A start obstacles N M pd' k ps"
    proof
      fix k assume "k \<in> dom pd'"
      then have "k = n \<or> k \<in> dom ?pd" by (auto simp: pd'_def)
      then show "\<exists>ps. trail_A start obstacles N M pd' k ps"
        using tn trails mono by blast
    qed
    have k: "\<forall>k q. pd' k = Some q \<longrightarrow> (x_A q, y_A q) = k"
      using keys by (auto simp: pd'_def p_def)
    have h: "set (heappush (lt_A pd') (candidates_A s) n) \<subseteq> dom pd'"
      using set_heappush [of "lt_A pd'" "candidates_A s" n] heap by (auto simp: pd'_def)
    have "pd' current = Some pc" using ncur cur by (simp add: pd'_def)
    with t k h cur show ?thesis by (simp add: v inv_A_def)
  next
    case (Some p)
    show ?thesis
    proof (cases "visited_A p \<or> dist_to_start_A pc + math_dist n (x_A pc, y_A pc) \<ge> dist_to_start_A p")
      case True
      then have "visit_A end current n s = s"
        using Some cur by (auto simp: visit_A_def Let_def)
      then show ?thesis using inv cur by simp
    next
      case False
      define p' where "p' = p\<lparr>dist_to_start_A := dist_to_start_A pc + math_dist n (x_A pc, y_A pc),
                                     dist_to_end_A := math_dist n end,
                                     parent_A := Some current\<rparr>"
      define pd' where "pd' = ?pd(n \<mapsto> p')"
      have v: "visit_A end current n s =
          \<lparr>candidates_A = heapify (lt_A pd') (candidates_A s), point_dict_A = pd'\<rparr>"
        using Some cur False by (simp add: visit_A_def Let_def p'_def pd'_def)
      have nvis: "\<not> visited_A p" using False by simp
      have ncur: "n \<noteq> current" using Some cur nvis by auto
      have mono: "trail_A start obstacles N M pd' k ps"
        if "trail_A start obstacles N M ?pd k ps" "n \<notin> set ps" for k ps
      proof (rule trail_A_mono [OF that(1)])
        fix a q assume "a \<in> set ps" "?pd a = Some q"
        then have "a \<noteq> n" using that(2) by auto
        then show "\<exists>p'. pd' a = Some p' \<and> parent_A p' = parent_A q \<and> (visited_A q \<longrightarrow> visited_A p')"
          using \<open>?pd a = Some q\<close> by (simp add: pd'_def)
      qed
      have n_psc: "n \<notin> set psc"
      proof
        assume "n \<in> set psc"
        from psc_vis [OF this] Some nvis show False by simp
      qed
      have tn: "trail_A start obstacles N M pd' n (psc @ [n])"
      proof (rule trail_A.trail_step)
        show "pd' n = Some p'" by (simp add: pd'_def)
        show "parent_A p' = Some current" by (simp add: p'_def)
        show "pd' current = Some pc" using ncur cur by (simp add: pd'_def)
        show "visited_A pc" by fact
        show "valid_step_A obstacles N M current n" by fact
        show "trail_A start obstacles N M pd' current psc" using psc n_psc by (rule mono)
      qed
      have t: "\<exists>ps. trail_A start obstacles N M pd' k ps" if "k \<in> dom pd'" for k
      proof (cases "k = n")
        case True
        then show ?thesis using tn by blast
      next
        case False
        then have "k \<in> dom ?pd" using that by (auto simp: pd'_def)
        then obtain ps where ps: "trail_A start obstacles N M ?pd k ps" using trails by blast
        have "n \<notin> set ps"
        proof
          assume "n \<in> set ps"
          from trail_A_visited [OF ps this] False Some nvis show False by auto
        qed
        with ps show ?thesis using mono by blast
      qed
      have k: "\<forall>k q. pd' k = Some q \<longrightarrow> (x_A q, y_A q) = k"
        using keys Some by (auto simp: pd'_def p'_def)
      have h: "set (heapify (lt_A pd') (candidates_A s)) \<subseteq> dom pd'"
        using set_heapify [of "lt_A pd'" "candidates_A s"] heap by (auto simp: pd'_def)
      have "pd' current = Some pc" using ncur cur by (simp add: pd'_def)
      with t k h cur show ?thesis by (simp add: v inv_A_def)
    qed
  qed
qed


lemma fold_visit_A_inv:
  assumes "inv_A start obstacles N M s"
    and "point_dict_A s current = Some pc" "visited_A pc"
    and "\<forall>n \<in> set ns. valid_step_A obstacles N M current n"
  shows "inv_A start obstacles N M (fold (visit_A end current) ns s)"
  using assms
proof (induction ns arbitrary: s pc)
  case Nil
  then show ?case by simp
next
  case (Cons n ns)
  have n: "valid_step_A obstacles N M current n" using Cons.prems(4) by simp
  from visit_A_inv [OF Cons.prems(1,2,3) n, of "end"]
  obtain pc' where "inv_A start obstacles N M (visit_A end current n s)"
    and "point_dict_A (visit_A end current n s) current = Some pc'" "visited_A pc'"
    by blast
  then have "inv_A start obstacles N M (fold (visit_A end current) ns (visit_A end current n s))"
    using Cons.prems(4) by (intro Cons.IH) auto
  then show ?case by simp
qed

lemma pop_A_inv:
  assumes inv: "inv_A start obstacles N M s" and pop: "pop_A s = Some (current, s')"
  shows "inv_A start obstacles N M s'"
    and "\<exists>pc. point_dict_A s' current = Some pc \<and> visited_A pc \<and> (x_A pc, y_A pc) = current"
proof -
  let ?pd = "point_dict_A s"
  obtain heap where hp: "heappop (lt_A ?pd) (candidates_A s) = Some (current, heap)"
    and s': "s' = \<lparr>candidates_A = heap,
                 point_dict_A = ?pd(current \<mapsto> (the (?pd current))\<lparr>visited_A := True\<rparr>)\<rparr>"
    using pop by (auto simp: pop_A_def split: option.splits)
  have keys: "\<And>k p. ?pd k = Some p \<Longrightarrow> (x_A p, y_A p) = k"
    and heap: "set (candidates_A s) \<subseteq> dom ?pd"
    and trails: "\<And>k. k \<in> dom ?pd \<Longrightarrow> \<exists>ps. trail_A start obstacles N M ?pd k ps"
    using inv by (auto simp: inv_A_def)
  from heappop_Some [OF hp] heap have cur: "current \<in> dom ?pd" and heap': "set heap \<subseteq> dom ?pd"
    by auto
  then obtain pc where pc: "?pd current = Some pc" by auto
  define pd' where "pd' = ?pd(current \<mapsto> pc\<lparr>visited_A := True\<rparr>)"
  have s'': "s' = \<lparr>candidates_A = heap, point_dict_A = pd'\<rparr>" by (simp add: s' pd'_def pc)
  have dom: "dom pd' = dom ?pd" using cur by (auto simp: pd'_def)
  have mono: "trail_A start obstacles N M pd' k ps" if "trail_A start obstacles N M ?pd k ps" for k ps
  proof (rule trail_A_mono [OF that])
    fix a q assume "a \<in> set ps" "?pd a = Some q"
    then show "\<exists>p'. pd' a = Some p' \<and> parent_A p' = parent_A q \<and> (visited_A q \<longrightarrow> visited_A p')"
      using pc by (cases "a = current") (simp_all add: pd'_def)
  qed
  have k: "\<forall>k q. pd' k = Some q \<longrightarrow> (x_A q, y_A q) = k"
    using keys pc by (auto simp: pd'_def)
  have t: "\<forall>k \<in> dom pd'. \<exists>ps. trail_A start obstacles N M pd' k ps"
    using trails mono dom by blast
  show "inv_A start obstacles N M s'"
    using k t heap' dom by (simp add: s'' inv_A_def)
  show "\<exists>pc. point_dict_A s' current = Some pc \<and> visited_A pc \<and> (x_A pc, y_A pc) = current"
    using keys [OF pc] by (simp add: s'' pd'_def)
qed

lemma expand_A_inv:
  assumes "inv_A start obstacles N M s"
    and "point_dict_A s current = Some pc" "visited_A pc" "(x_A pc, y_A pc) = current"
  shows "inv_A start obstacles N M (expand_A end obstacles N M current s)"
proof -
  have "\<forall>n \<in> set (neighbors_A pc obstacles N M). valid_step_A obstacles N M current n"
    using neighbors_A_sound [of _ pc obstacles N M] assms(4) by auto
  from fold_visit_A_inv [OF assms(1,2,3) this] show ?thesis
    by (simp add: expand_A_def assms(2))
qed

definition path_from_to :: "(cell \<Rightarrow> cell \<Rightarrow> bool) \<Rightarrow> cell \<Rightarrow> cell \<Rightarrow> cell list \<Rightarrow> bool" where
  "path_from_to R a b ps \<longleftrightarrow> ps \<noteq> [] \<and> hd ps = a \<and> last ps = b \<and> steps_ok R ps"

lemma navigate_loop_A_correct:
  assumes "inv_A start obstacles N M s"
  shows "\<exists>r. navigate_loop_A end obstacles N M s = Some r \<and>
             (r = [] \<or> path_from_to (valid_step_A obstacles N M) start end r)"
  using assms
proof (induction "end" obstacles N M s rule: navigate_loop_A.induct)
  case (1 "end" obstacles N M s)
  show ?case
  proof (cases "candidates_A s = []")
    case True
    then show ?thesis by (subst navigate_loop_A.simps) simp
  next
    case False
    then obtain current s' where pop: "pop_A s = Some (current, s')"
      by (cases "pop_A s") (auto simp: pop_A_def heappop_def Let_def split: option.splits if_splits)
    from pop_A_inv [OF "1.prems" pop] obtain pc where inv': "inv_A start obstacles N M s'"
      and pc: "point_dict_A s' current = Some pc" "visited_A pc" "(x_A pc, y_A pc) = current"
      by blast
    show ?thesis
    proof (cases "x_A pc = fst end \<and> y_A pc = snd end")
      case True
      then have ce: "current = end" using pc(3) by (cases "end") auto
      obtain ps where ps: "trail_A start obstacles N M (point_dict_A s') current ps"
        using inv_A_trail [OF inv' pc(1)] by blast
      have keys: "\<And>k p. point_dict_A s' k = Some p \<Longrightarrow> (x_A p, y_A p) = k"
        using inv_A_keys [OF inv'] by blast
      have "retrace_steps_A (point_dict_A s') current = Some ps"
        using retrace_loop_A_trail [OF ps keys, of "[]"] by (simp add: retrace_steps_A_def)
      moreover have "path_from_to (valid_step_A obstacles N M) start end ps"
        using trail_A_last [OF ps] trail_A_steps [OF ps] ce by (simp add: path_from_to_def)
      ultimately show ?thesis using False pop pc True
        by (subst navigate_loop_A.simps) simp
    next
      case notgoal: False
      have "inv_A start obstacles N M (expand_A end obstacles N M current s')"
        using inv' pc by (rule expand_A_inv)
      from "1.IH" [OF False pop refl refl _ this] notgoal pc
      have "\<exists>r. navigate_loop_A end obstacles N M (expand_A end obstacles N M current s') = Some r \<and>
             (r = [] \<or> path_from_to (valid_step_A obstacles N M) start end r)"
        by simp
      moreover have "navigate_loop_A end obstacles N M s =
          navigate_loop_A end obstacles N M (expand_A end obstacles N M current s')"
        using False pop pc notgoal by (subst navigate_loop_A.simps) auto
      ultimately show ?thesis by simp
    qed
  qed
qed

lemma inv_A_initial:
  "inv_A start obstacles N M
     \<lparr>candidates_A = [start],
      point_dict_A = [start \<mapsto> \<lparr>x_A = fst start, y_A = snd start, dist_to_start_A = 0,
                         dist_to_end_A = d, visited_A = False, parent_A = None\<rparr>]\<rparr>"
proof -
  let ?p = "\<lparr>x_A = fst start, y_A = snd start, dist_to_start_A = 0,
                         dist_to_end_A = d, visited_A = False, parent_A = None\<rparr>"
  have "trail_A start obstacles N M [start \<mapsto> ?p] start [start]"
    by (rule trail_A.trail_root [of _ _ ?p]) simp_all
  then show ?thesis by (auto simp: inv_A_def split: if_splits)
qed

lemma navigate_A_correct:
  "\<exists>r. navigate_A start end obstacles N M = Some r \<and>
       (r = [] \<or> path_from_to (valid_step_A obstacles N M) start end r)"
  unfolding navigate_A_def Let_def by (rule navigate_loop_A_correct) (rule inv_A_initial)

section \<open>Variant B: \<open>pathfinder.py\<close>\<close>

text \<open>
  The second file keeps \<open>f_score\<close> and \<open>g_score\<close> in the \<open>Point\<close>, marks a closed
  point by \<open>state = 1\<close>, and calls its dictionary \<open>visited\<close> and its heap
  \<open>openpoints\<close>. Objects are addressed by their cell, as in variant A.
\<close>

record Point_B =
  x_B :: int
  y_B :: int
  f_score_B :: real
  g_score_B :: real
  state_B :: int
  parent_B :: "cell option"

definition Point_lt_B :: "Point_B \<Rightarrow> Point_B \<Rightarrow> bool" where
  "Point_lt_B self other \<longleftrightarrow> f_score_B self < f_score_B other"

type_synonym store_B = "cell \<rightharpoonup> Point_B"

definition lt_B :: "store_B \<Rightarrow> cell \<Rightarrow> cell \<Rightarrow> bool" where
  "lt_B pd a b = Point_lt_B (the (pd a)) (the (pd b))"

fun neighbors_loop_B :: "Point_B \<Rightarrow> cell list \<Rightarrow> int \<Rightarrow> int \<Rightarrow> (int \<times> int) list \<Rightarrow> cell list \<Rightarrow> cell list" where
  "neighbors_loop_B p obstacles N M [] good_neighbors = good_neighbors"
| "neighbors_loop_B p obstacles N M (d # ds) good_neighbors =
     (let x = x_B p + fst d; y = y_B p + snd d in
      if (x, y) \<in> set obstacles \<or> y \<le> 0 \<or> x \<le> 0 \<or> y \<ge> N \<or> x \<ge> M
      then neighbors_loop_B p obstacles N M ds good_neighbors
      else if fst d \<noteq> 0 \<and> snd d \<noteq> 0 \<and>
              ((x_B p + fst d, y_B p) \<in> set obstacles \<or> (x_B p, y_B p + snd d) \<in> set obstacles)
      then neighbors_loop_B p obstacles N M ds good_neighbors
      else neighbors_loop_B p obstacles N M ds (good_neighbors @ [(x, y)]))"

definition neighbors_B :: "Point_B \<Rightarrow> cell list \<Rightarrow> int \<Rightarrow> int \<Rightarrow> cell list" where
  "neighbors_B p obstacles N M = neighbors_loop_B p obstacles N M directions []"

partial_function (option) retrace_loop_B :: "store_B \<Rightarrow> cell option \<Rightarrow> cell list \<Rightarrow> cell list option" where
  "retrace_loop_B pd current path =
     (case current of
        None \<Rightarrow> Some (rev path)
      | Some c \<Rightarrow> retrace_loop_B pd (parent_B (the (pd c)))
                    (path @ [(x_B (the (pd c)), y_B (the (pd c)))]))"

definition retrace_steps_B :: "store_B \<Rightarrow> cell \<Rightarrow> cell list option" where
  "retrace_steps_B pd p = retrace_loop_B pd (Some p) []"

record search_B =
  openpoints_B :: "cell list"
  visited_B :: store_B

definition visit_B :: "cell \<Rightarrow> cell \<Rightarrow> cell \<Rightarrow> search_B \<Rightarrow> search_B" where
  "visit_B p2 current n s =
     (let pd = visited_B s; cur = the (pd current) in
      case pd n of
        Some p \<Rightarrow>
          if state_B p = 1 then s
          else
            (let offered_gscore = g_score_B cur + math_dist n (x_B cur, y_B cur) in
             if offered_gscore \<ge> g_score_B p then s
             else
               (let pd' = pd(n \<mapsto> p\<lparr>g_score_B := offered_gscore,
                                     f_score_B := offered_gscore + math_dist n p2,
                                     parent_B := Some current\<rparr>)
                in \<lparr>openpoints_B = heapify (lt_B pd') (openpoints_B s), visited_B = pd'\<rparr>))
      | None \<Rightarrow>
          (let g_score = math_dist (x_B cur, y_B cur) n;
               f_score = g_score + math_dist n p2;
               p = \<lparr>x_B = fst n, y_B = snd n, f_score_B = f_score, g_score_B = g_score,
                    state_B = 0, parent_B = Some current\<rparr>;
               pd' = pd((x_B p, y_B p) \<mapsto> p)
           in \<lparr>openpoints_B = heappush (lt_B pd') (openpoints_B s) (x_B p, y_B p),
               visited_B = pd'\<rparr>))"

definition pop_B :: "search_B \<Rightarrow> (cell \<times> search_B) option" where
  "pop_B s =
     (case heappop (lt_B (visited_B s)) (openpoints_B s) of
        None \<Rightarrow> None
      | Some (current, heap) \<Rightarrow>
          Some (current,
                \<lparr>openpoints_B = heap,
                 visited_B = (visited_B s)(current \<mapsto> (the (visited_B s current))\<lparr>state_B := 1\<rparr>)\<rparr>))"

definition expand_B :: "cell \<Rightarrow> cell list \<Rightarrow> int \<Rightarrow> int \<Rightarrow> cell \<Rightarrow> search_B \<Rightarrow> search_B" where
  "expand_B p2 obstacles N M current s =
     fold (visit_B p2 current) (neighbors_B (the (visited_B s current)) obstacles N M) s"

definition valid_step_B :: "cell list \<Rightarrow> int \<Rightarrow> int \<Rightarrow> cell \<Rightarrow> cell \<Rightarrow> bool" where
  "valid_step_B obstacles N M a b \<longleftrightarrow>
     b \<notin> set obstacles \<and> 0 < snd b \<and> 0 < fst b \<and> snd b < N \<and> fst b < M \<and>
     (fst b - fst a, snd b - snd a) \<in> set directions \<and>
     (fst b \<noteq> fst a \<and> snd b \<noteq> snd a \<longrightarrow>
        (fst b, snd a) \<notin> set obstacles \<and> (fst a, snd b) \<notin> set obstacles)"

subsection \<open>Termination of the search loop of variant B\<close>

lemma neighbors_loop_B_sound:
  "c \<in> set (neighbors_loop_B p obstacles N M ds acc) \<Longrightarrow>
   c \<in> set acc \<or>
   (c \<notin> set obstacles \<and> 0 < snd c \<and> 0 < fst c \<and> snd c < N \<and> fst c < M \<and>
    (fst c - x_B p, snd c - y_B p) \<in> set ds \<and>
    (fst c \<noteq> x_B p \<and> snd c \<noteq> y_B p \<longrightarrow>
       (fst c, y_B p) \<notin> set obstacles \<and> (x_B p, snd c) \<notin> set obstacles))"
proof (induction ds arbitrary: acc)
  case Nil
  then show ?case by simp
next
  case (Cons d ds)
  let ?x = "x_B p + fst d" and ?y = "y_B p + snd d"
  let ?out = "(?x, ?y) \<in> set obstacles \<or> ?y \<le> 0 \<or> ?x \<le> 0 \<or> ?y \<ge> N \<or> ?x \<ge> M"
  let ?corner = "fst d \<noteq> 0 \<and> snd d \<noteq> 0 \<and>
              ((x_B p + fst d, y_B p) \<in> set obstacles \<or> (x_B p, y_B p + snd d) \<in> set obstacles)"
  show ?case
  proof (cases "?out \<or> ?corner")
    case True
    then have "c \<in> set (neighbors_loop_B p obstacles N M ds acc)"
      using Cons.prems by (auto simp: Let_def split: if_splits)
    from Cons.IH [OF this] show ?thesis by auto
  next
    case False
    then have "c \<in> set (neighbors_loop_B p obstacles N M ds (acc @ [(?x, ?y)]))"
      using Cons.prems by (auto simp: Let_def split: if_splits)
    from Cons.IH [OF this] consider "c \<in> set acc" | "c = (?x, ?y)"
      | "c \<notin> set obstacles \<and> 0 < snd c \<and> 0 < fst c \<and> snd c < N \<and> fst c < M \<and>
         (fst c - x_B p, snd c - y_B p) \<in> set ds \<and>
         (fst c \<noteq> x_B p \<and> snd c \<noteq> y_B p \<longrightarrow>
            (fst c, y_B p) \<notin> set obstacles \<and> (x_B p, snd c) \<notin> set obstacles)"
      by auto
    then show ?thesis
    proof cases
      case 1
      then show ?thesis by simp
    next
      case 2
      have "(fst c - x_B p, snd c - y_B p) = d" by (simp add: 2)
      then show ?thesis using False 2 by auto
    next
      case 3
      then show ?thesis by simp
    qed
  qed
qed

lemma neighbors_B_sound:
  "c \<in> set (neighbors_B p obstacles N M) \<Longrightarrow> valid_step_B obstacles N M (x_B p, y_B p) c"
  using neighbors_loop_B_sound [of c p obstacles N M directions "[]"]
  by (simp add: neighbors_B_def valid_step_B_def)

lemma visit_B_measure:
  assumes "n \<in> {0<..<M} \<times> {0<..<N}"
  shows "search_measure M N (openpoints_B (visit_B p2 current n s)) (visited_B (visit_B p2 current n s))
         \<le> search_measure M N (openpoints_B s) (visited_B s)"
proof (cases "visited_B s n")
  case None
  then have "n \<notin> dom (visited_B s)" by auto
  from search_measure_insert [OF assms this, of "heappush lt (openpoints_B s) n" "openpoints_B s" v for lt v]
  show ?thesis using None by (simp add: visit_B_def Let_def less_imp_le)
next
  case (Some p)
  then have "n \<in> dom (visited_B s)" by auto
  from search_measure_update [OF this, of "heapify lt (openpoints_B s)" "openpoints_B s" M N v for lt v]
  show ?thesis using Some by (simp add: visit_B_def Let_def)
qed

lemma fold_visit_B_measure:
  assumes "set ns \<subseteq> {0<..<M} \<times> {0<..<N}"
  shows "search_measure M N (openpoints_B (fold (visit_B p2 current) ns s))
           (visited_B (fold (visit_B p2 current) ns s))
         \<le> search_measure M N (openpoints_B s) (visited_B s)"
  using assms
proof (induction ns arbitrary: s)
  case Nil
  then show ?case by simp
next
  case (Cons n ns)
  have "search_measure M N (openpoints_B (fold (visit_B p2 current) ns (visit_B p2 current n s)))
           (visited_B (fold (visit_B p2 current) ns (visit_B p2 current n s)))
         \<le> search_measure M N (openpoints_B (visit_B p2 current n s)) (visited_B (visit_B p2 current n s))"
    using Cons.prems by (intro Cons.IH) simp
  also have "\<dots> \<le> search_measure M N (openpoints_B s) (visited_B s)"
    using Cons.prems by (intro visit_B_measure) simp
  finally show ?case by simp
qed

lemma neighbors_B_interior: "set (neighbors_B p obstacles N M) \<subseteq> {0<..<M} \<times> {0<..<N}"
  using neighbors_B_sound [of _ p obstacles N M] by (auto simp: valid_step_B_def)

lemma expand_B_measure:
  "search_measure M N (openpoints_B (expand_B p2 obstacles N M current s))
           (visited_B (expand_B p2 obstacles N M current s))
         \<le> search_measure M N (openpoints_B s) (visited_B s)"
  unfolding expand_B_def by (rule fold_visit_B_measure) (rule neighbors_B_interior)

lemma pop_B_measure:
  assumes "pop_B s = Some (current, s')"
  shows "search_measure M N (openpoints_B s') (visited_B s')
         < search_measure M N (openpoints_B s) (visited_B s)"
proof -
  obtain heap where hp: "heappop (lt_B (visited_B s)) (openpoints_B s) = Some (current, heap)"
    and s': "s' = \<lparr>openpoints_B = heap,
                 visited_B = (visited_B s)(current \<mapsto> (the (visited_B s current))\<lparr>state_B := 1\<rparr>)\<rparr>"
    using assms by (auto simp: pop_B_def split: option.splits)
  have len: "Suc (length heap) = length (openpoints_B s)" using hp by (rule length_heappop)
  have "({0<..<M} \<times> {0<..<N}) - dom (visited_B s') \<subseteq> ({0<..<M} \<times> {0<..<N}) - dom (visited_B s)"
    by (auto simp: s')
  then have "card (({0<..<M} \<times> {0<..<N}) - dom (visited_B s')) \<le> card (({0<..<M} \<times> {0<..<N}) - dom (visited_B s))"
    by (intro card_mono) simp_all
  then show ?thesis using len by (simp add: search_measure_def s')
qed

function navigate_loop_B :: "cell \<Rightarrow> cell list \<Rightarrow> int \<Rightarrow> int \<Rightarrow> search_B \<Rightarrow> cell list option" where
  "navigate_loop_B p2 obstacles N M s =
     (if openpoints_B s = [] then Some []
      else
        (case pop_B s of
           None \<Rightarrow> None
         | Some (current, s') \<Rightarrow>
             (let cur = the (visited_B s' current) in
              if x_B cur = fst p2 \<and> y_B cur = snd p2
              then retrace_steps_B (visited_B s') current
              else navigate_loop_B p2 obstacles N M (expand_B p2 obstacles N M current s'))))"
  by pat_completeness auto
termination
proof (relation "measure (\<lambda>(p2, obstacles, N, M, s). search_measure M N (openpoints_B s) (visited_B s))")
  show "wf (measure (\<lambda>(p2, obstacles, N, M, s). search_measure M N (openpoints_B s) (visited_B s)))"
    by simp
next
  fix p2 :: cell and obstacles :: "cell list" and N M :: int and s :: search_B
    and x2 :: "cell \<times> search_B" and current s' xa
  assume "pop_B s = Some x2" "(current, s') = x2"
  then have "pop_B s = Some (current, s')" by simp
  from pop_B_measure [OF this, of M N] expand_B_measure [of M N p2 obstacles current s']
  show "((p2, obstacles, N, M, expand_B p2 obstacles N M current s'), p2, obstacles, N, M, s)
        \<in> measure (\<lambda>(p2, obstacles, N, M, s). search_measure M N (openpoints_B s) (visited_B s))"
    by simp
qed

declare navigate_loop_B.simps [simp del]

definition navigate_B :: "cell \<Rightarrow> cell \<Rightarrow> cell list \<Rightarrow> int \<Rightarrow> int \<Rightarrow> cell list option" where
  "navigate_B p1 p2 obstacles N M =
     (let start = \<lparr>x_B = fst p1, y_B = snd p1, f_score_B = 0, g_score_B = 0,
                   state_B = 0, parent_B = None\<rparr>;
          visited = [p1 \<mapsto> start];
          openpoints = heappush (lt_B visited) [] p1
      in navigate_loop_B p2 obstacles N M \<lparr>openpoints_B = openpoints, visited_B = visited\<rparr>)"

subsection \<open>The invariant of the search of variant B\<close>

text \<open>
  \<open>trail_B start obstacles N M pd c ps\<close>: following \<open>parent\<close> from the object at \<open>c\<close>
  ends at the start object, \<open>ps\<close> is the list of cells met, from the start to \<open>c\<close>,
  every object on the way but \<open>c\<close> itself is visited, and every link is a move that
  \<open>neighbors\<close> allows.
\<close>

inductive trail_B :: "cell \<Rightarrow> cell list \<Rightarrow> int \<Rightarrow> int \<Rightarrow> store_B \<Rightarrow> cell \<Rightarrow> cell list \<Rightarrow> bool"
  for start obstacles N M pd where
  trail_root: "pd start = Some p \<Longrightarrow> parent_B p = None \<Longrightarrow> trail_B start obstacles N M pd start [start]"
| trail_step: "pd c = Some p \<Longrightarrow> parent_B p = Some q \<Longrightarrow> pd q = Some pq \<Longrightarrow> state_B pq = 1 \<Longrightarrow>
     valid_step_B obstacles N M q c \<Longrightarrow> trail_B start obstacles N M pd q ps \<Longrightarrow>
     trail_B start obstacles N M pd c (ps @ [c])"

lemma trail_B_last: "trail_B start obstacles N M pd c ps \<Longrightarrow> ps \<noteq> [] \<and> last ps = c \<and> hd ps = start"
  by (induction rule: trail_B.induct) auto

lemma trail_B_dom: "trail_B start obstacles N M pd c ps \<Longrightarrow> set ps \<subseteq> dom pd"
  by (induction rule: trail_B.induct) auto

lemma trail_B_visited:
  "trail_B start obstacles N M pd c ps \<Longrightarrow> a \<in> set ps \<Longrightarrow>
   a = c \<or> (\<exists>pa. pd a = Some pa \<and> state_B pa = 1)"
proof (induction rule: trail_B.induct)
  case (trail_root p)
  then show ?case by simp
next
  case (trail_step c p q pq ps)
  show ?case
  proof (cases "a = c")
    case True
    then show ?thesis by simp
  next
    case False
    then have "a \<in> set ps" using trail_step.prems by simp
    from trail_step.IH [OF this] trail_step.hyps(3,4) show ?thesis by blast
  qed
qed

lemma trail_B_steps:
  "trail_B start obstacles N M pd c ps \<Longrightarrow> steps_ok (valid_step_B obstacles N M) ps"
proof (induction rule: trail_B.induct)
  case (trail_root p)
  then show ?case by simp
next
  case (trail_step c p q pq ps)
  then show ?case by (auto simp: steps_ok_snoc dest: trail_B_last)
qed

lemma trail_B_mono:
  assumes "trail_B start obstacles N M pd c ps"
    and "\<And>a p. a \<in> set ps \<Longrightarrow> pd a = Some p \<Longrightarrow>
           \<exists>p'. pd' a = Some p' \<and> parent_B p' = parent_B p \<and> (state_B p = 1 \<longrightarrow> state_B p' = 1)"
  shows "trail_B start obstacles N M pd' c ps"
  using assms
proof (induction rule: trail_B.induct)
  case (trail_root p)
  from trail_root(3) [of start p] trail_root(1,2) show ?case
    by (auto intro: trail_B.trail_root)
next
  case (trail_step c p q pq ps)
  have q: "q \<in> set ps" using trail_step.hyps(6) trail_B_last by fastforce
  obtain p' where p': "pd' c = Some p'" "parent_B p' = Some q"
    using trail_step.prems [of c p] trail_step.hyps(1,2) by auto
  obtain pq' where pq': "pd' q = Some pq'" "state_B pq' = 1"
    using trail_step.prems [of q pq] trail_step.hyps(3,4) q by auto
  have "trail_B start obstacles N M pd' q ps"
    using trail_step.prems by (intro trail_step.IH) auto
  with p' pq' trail_step.hyps(5) show ?case by (auto intro: trail_B.trail_step)
qed

lemma retrace_loop_B_trail:
  assumes "trail_B start obstacles N M pd c ps"
    and "\<And>k p. pd k = Some p \<Longrightarrow> (x_B p, y_B p) = k"
  shows "retrace_loop_B pd (Some c) acc = Some (ps @ rev acc)"
  using assms(1)
proof (induction arbitrary: acc rule: trail_B.induct)
  case (trail_root p)
  have "(x_B p, y_B p) = start" using assms(2) trail_root(1) by simp
  then show ?case using trail_root
    by (subst retrace_loop_B.simps, simp, subst retrace_loop_B.simps, simp)
next
  case (trail_step c p q pq ps)
  have "(x_B p, y_B p) = c" using assms(2) trail_step.hyps(1) by simp
  then show ?case using trail_step.hyps(1,2) trail_step.IH [of "acc @ [c]"]
    by (subst retrace_loop_B.simps) simp
qed

definition inv_B :: "cell \<Rightarrow> cell list \<Rightarrow> int \<Rightarrow> int \<Rightarrow> search_B \<Rightarrow> bool" where
  "inv_B start obstacles N M s \<longleftrightarrow>
     (\<forall>k p. visited_B s k = Some p \<longrightarrow> (x_B p, y_B p) = k) \<and>
     set (openpoints_B s) \<subseteq> dom (visited_B s) \<and>
     (\<forall>k \<in> dom (visited_B s). \<exists>ps. trail_B start obstacles N M (visited_B s) k ps)"

lemma inv_B_keys: "inv_B start obstacles N M s \<Longrightarrow> visited_B s k = Some p \<Longrightarrow> (x_B p, y_B p) = k"
  unfolding inv_B_def by blast

lemma inv_B_trail:
  "inv_B start obstacles N M s \<Longrightarrow> visited_B s k = Some p \<Longrightarrow>
   \<exists>ps. trail_B start obstacles N M (visited_B s) k ps"
  unfolding inv_B_def by blast

lemma visit_B_inv:
  assumes inv: "inv_B start obstacles N M s"
    and cur: "visited_B s current = Some pc" "state_B pc = 1"
    and n: "valid_step_B obstacles N M current n"
  shows "inv_B start obstacles N M (visit_B p2 current n s) \<and>
         (\<exists>pc'. visited_B (visit_B p2 current n s) current = Some pc' \<and> state_B pc' = 1)"
proof -
  let ?pd = "visited_B s"
  have keys: "\<And>k p. ?pd k = Some p \<Longrightarrow> (x_B p, y_B p) = k"
    and heap: "set (openpoints_B s) \<subseteq> dom ?pd"
    and trails: "\<And>k. k \<in> dom ?pd \<Longrightarrow> \<exists>ps. trail_B start obstacles N M ?pd k ps"
    using inv by (auto simp: inv_B_def)
  obtain psc where psc: "trail_B start obstacles N M ?pd current psc"
    using trails [of current] cur by auto
  have psc_vis: "\<exists>pa. ?pd a = Some pa \<and> state_B pa = 1" if "a \<in> set psc" for a
    using trail_B_visited [OF psc that] cur by blast
  show ?thesis
  proof (cases "?pd n")
    case None
    define p where "p = \<lparr>x_B = fst n, y_B = snd n,
                    f_score_B = math_dist (x_B pc, y_B pc) n + math_dist n p2,
                    g_score_B = math_dist (x_B pc, y_B pc) n,
                    state_B = 0, parent_B = Some current\<rparr>"
    define pd' where "pd' = ?pd(n \<mapsto> p)"
    have v: "visit_B p2 current n s =
        \<lparr>openpoints_B = heappush (lt_B pd') (openpoints_B s) n, visited_B = pd'\<rparr>"
      using None cur by (simp add: visit_B_def Let_def p_def pd'_def)
    have ncur: "n \<noteq> current" using None cur by auto
    have mono: "trail_B start obstacles N M pd' k ps" if "trail_B start obstacles N M ?pd k ps" for k ps
    proof (rule trail_B_mono [OF that])
      fix a q assume "a \<in> set ps" "?pd a = Some q"
      then have "a \<noteq> n" using None by auto
      then show "\<exists>p'. pd' a = Some p' \<and> parent_B p' = parent_B q \<and> (state_B q = 1 \<longrightarrow> state_B p' = 1)"
        using \<open>?pd a = Some q\<close> by (simp add: pd'_def)
    qed
    have tn: "trail_B start obstacles N M pd' n (psc @ [n])"
    proof (rule trail_B.trail_step)
      show "pd' n = Some p" by (simp add: pd'_def)
      show "parent_B p = Some current" by (simp add: p_def)
      show "pd' current = Some pc" using ncur cur by (simp add: pd'_def)
      show "state_B pc = 1" by fact
      show "valid_step_B obstacles N M current n" by fact
      show "trail_B start obstacles N M pd' current psc" using psc by (rule mono)
    qed
    have t: "\<forall>k \<in> dom pd'. \<exists>ps. trail_B start obstacles N M pd' k ps"
    proof
      fix k assume "k \<in> dom pd'"
      then have "k = n \<or> k \<in> dom ?pd" by (auto simp: pd'_def)
      then show "\<exists>ps. trail_B start obstacles N M pd' k ps"
        using tn trails mono by blast
    qed
    have k: "\<forall>k q. pd' k = Some q \<longrightarrow> (x_B q, y_B q) = k"
      using keys by (auto simp: pd'_def p_def)
    have h: "set (heappush (lt_B pd') (openpoints_B s) n) \<subseteq> dom pd'"
      using set_heappush [of "lt_B pd'" "openpoints_B s" n] heap by (auto simp: pd'_def)
    have "pd' current = Some pc" using ncur cur by (simp add: pd'_def)
    with t k h cur show ?thesis by (simp add: v inv_B_def)
  next
    case (Some p)
    show ?thesis
    proof (cases "state_B p = 1 \<or> g_score_B pc + math_dist n (x_B pc, y_B pc) \<ge> g_score_B p")
      case True
      then have "visit_B p2 current n s = s"
        using Some cur by (auto simp: visit_B_def Let_def)
      then show ?thesis using inv cur by simp
    next
      case False
      define p' where "p' = p\<lparr>g_score_B := g_score_B pc + math_dist n (x_B pc, y_B pc),
                                     f_score_B := g_score_B pc + math_dist n (x_B pc, y_B pc) + math_dist n p2,
                                     parent_B := Some current\<rparr>"
      define pd' where "pd' = ?pd(n \<mapsto> p')"
      have v: "visit_B p2 current n s =
          \<lparr>openpoints_B = heapify (lt_B pd') (openpoints_B s), visited_B = pd'\<rparr>"
        using Some cur False by (simp add: visit_B_def Let_def p'_def pd'_def)
      have nvis: "\<not> state_B p = 1" using False by simp
      have ncur: "n \<noteq> current" using Some cur nvis by auto
      have mono: "trail_B start obstacles N M pd' k ps"
        if "trail_B start obstacles N M ?pd k ps" "n \<notin> set ps" for k ps
      proof (rule trail_B_mono [OF that(1)])
        fix a q assume "a \<in> set ps" "?pd a = Some q"
        then have "a \<noteq> n" using that(2) by auto
        then show "\<exists>p'. pd' a = Some p' \<and> parent_B p' = parent_B q \<and> (state_B q = 1 \<longrightarrow> state_B p' = 1)"
          using \<open>?pd a = Some q\<close> by (simp add: pd'_def)
      qed
      have n_psc: "n \<notin> set psc"
      proof
        assume "n \<in> set psc"
        from psc_vis [OF this] Some nvis show False by simp
      qed
      have tn: "trail_B start obstacles N M pd' n (psc @ [n])"
      proof (rule trail_B.trail_step)
        show "pd' n = Some p'" by (simp add: pd'_def)
        show "parent_B p' = Some current" by (simp add: p'_def)
        show "pd' current = Some pc" using ncur cur by (simp add: pd'_def)
        show "state_B pc = 1" by fact
        show "valid_step_B obstacles N M current n" by fact
        show "trail_B start obstacles N M pd' current psc" using psc n_psc by (rule mono)
      qed
      have t: "\<exists>ps. trail_B start obstacles N M pd' k ps" if "k \<in> dom pd'" for k
      proof (cases "k = n")
        case True
        then show ?thesis using tn by blast
      next
        case False
        then have "k \<in> dom ?pd" using that by (auto simp: pd'_def)
        then obtain ps where ps: "trail_B start obstacles N M ?pd k ps" using trails by blast
        have "n \<notin> set ps"
        proof
          assume "n \<in> set ps"
          from trail_B_visited [OF ps this] False Some nvis show False by auto
        qed
        with ps show ?thesis using mono by blast
      qed
      have k: "\<forall>k q. pd' k = Some q \<longrightarrow> (x_B q, y_B q) = k"
        using keys Some by (auto simp: pd'_def p'_def)
      have h: "set (heapify (lt_B pd') (openpoints_B s)) \<subseteq> dom pd'"
        using set_heapify [of "lt_B pd'" "openpoints_B s"] heap by (auto simp: pd'_def)
      have "pd' current = Some pc" using ncur cur by (simp add: pd'_def)
      with t k h cur show ?thesis by (simp add: v inv_B_def)
    qed
  qed
qed


lemma fold_visit_B_inv:
  assumes "inv_B start obstacles N M s"
    and "visited_B s current = Some pc" "state_B pc = 1"
    and "\<forall>n \<in> set ns. valid_step_B obstacles N M current n"
  shows "inv_B start obstacles N M (fold (visit_B p2 current) ns s)"
  using assms
proof (induction ns arbitrary: s pc)
  case Nil
  then show ?case by simp
next
  case (Cons n ns)
  have n: "valid_step_B obstacles N M current n" using Cons.prems(4) by simp
  from visit_B_inv [OF Cons.prems(1,2,3) n, of p2]
  obtain pc' where "inv_B start obstacles N M (visit_B p2 current n s)"
    and "visited_B (visit_B p2 current n s) current = Some pc'" "state_B pc' = 1"
    by blast
  then have "inv_B start obstacles N M (fold (visit_B p2 current) ns (visit_B p2 current n s))"
    using Cons.prems(4) by (intro Cons.IH) auto
  then show ?case by simp
qed

lemma pop_B_inv:
  assumes inv: "inv_B start obstacles N M s" and pop: "pop_B s = Some (current, s')"
  shows "inv_B start obstacles N M s'"
    and "\<exists>pc. visited_B s' current = Some pc \<and> state_B pc = 1 \<and> (x_B pc, y_B pc) = current"
proof -
  let ?pd = "visited_B s"
  obtain heap where hp: "heappop (lt_B ?pd) (openpoints_B s) = Some (current, heap)"
    and s': "s' = \<lparr>openpoints_B = heap,
                 visited_B = ?pd(current \<mapsto> (the (?pd current))\<lparr>state_B := 1\<rparr>)\<rparr>"
    using pop by (auto simp: pop_B_def split: option.splits)
  have keys: "\<And>k p. ?pd k = Some p \<Longrightarrow> (x_B p, y_B p) = k"
    and heap: "set (openpoints_B s) \<subseteq> dom ?pd"
    and trails: "\<And>k. k \<in> dom ?pd \<Longrightarrow> \<exists>ps. trail_B start obstacles N M ?pd k ps"
    using inv by (auto simp: inv_B_def)
  from heappop_Some [OF hp] heap have cur: "current \<in> dom ?pd" and heap': "set heap \<subseteq> dom ?pd"
    by auto
  then obtain pc where pc: "?pd current = Some pc" by auto
  define pd' where "pd' = ?pd(current \<mapsto> pc\<lparr>state_B := 1\<rparr>)"
  have s'': "s' = \<lparr>openpoints_B = heap, visited_B = pd'\<rparr>" by (simp add: s' pd'_def pc)
  have dom: "dom pd' = dom ?pd" using cur by (auto simp: pd'_def)
  have mono: "trail_B start obstacles N M pd' k ps" if "trail_B start obstacles N M ?pd k ps" for k ps
  proof (rule trail_B_mono [OF that])
    fix a q assume "a \<in> set ps" "?pd a = Some q"
    then show "\<exists>p'. pd' a = Some p' \<and> parent_B p' = parent_B q \<and> (state_B q = 1 \<longrightarrow> state_B p' = 1)"
      using pc by (cases "a = current") (simp_all add: pd'_def)
  qed
  have k: "\<forall>k q. pd' k = Some q \<longrightarrow> (x_B q, y_B q) = k"
    using keys pc by (auto simp: pd'_def)
  have t: "\<forall>k \<in> dom pd'. \<exists>ps. trail_B start obstacles N M pd' k ps"
    using trails mono dom by blast
  show "inv_B start obstacles N M s'"
    using k t heap' dom by (simp add: s'' inv_B_def)
  show "\<exists>pc. visited_B s' current = Some pc \<and> state_B pc = 1 \<and> (x_B pc, y_B pc) = current"
    using keys [OF pc] by (simp add: s'' pd'_def)
qed

lemma expand_B_inv:
  assumes "inv_B start obstacles N M s"
    and "visited_B s current = Some pc" "state_B pc = 1" "(x_B pc, y_B pc) = current"
  shows "inv_B start obstacles N M (expand_B p2 obstacles N M current s)"
proof -
  have "\<forall>n \<in> set (neighbors_B pc obstacles N M). valid_step_B obstacles N M current n"
    using neighbors_B_sound [of _ pc obstacles N M] assms(4) by auto
  from fold_visit_B_inv [OF assms(1,2,3) this] show ?thesis
    by (simp add: expand_B_def assms(2))
qed

lemma navigate_loop_B_correct:
  assumes "inv_B start obstacles N M s"
  shows "\<exists>r. navigate_loop_B p2 obstacles N M s = Some r \<and>
             (r = [] \<or> path_from_to (valid_step_B obstacles N M) start p2 r)"
  using assms
proof (induction p2 obstacles N M s rule: navigate_loop_B.induct)
  case (1 p2 obstacles N M s)
  show ?case
  proof (cases "openpoints_B s = []")
    case True
    then show ?thesis by (subst navigate_loop_B.simps) simp
  next
    case False
    then obtain current s' where pop: "pop_B s = Some (current, s')"
      by (cases "pop_B s") (auto simp: pop_B_def heappop_def Let_def split: option.splits if_splits)
    from pop_B_inv [OF "1.prems" pop] obtain pc where inv': "inv_B start obstacles N M s'"
      and pc: "visited_B s' current = Some pc" "state_B pc = 1" "(x_B pc, y_B pc) = current"
      by blast
    show ?thesis
    proof (cases "x_B pc = fst p2 \<and> y_B pc = snd p2")
      case True
      then have ce: "current = p2" using pc(3) by (cases p2) auto
      obtain ps where ps: "trail_B start obstacles N M (visited_B s') current ps"
        using inv_B_trail [OF inv' pc(1)] by blast
      have keys: "\<And>k p. visited_B s' k = Some p \<Longrightarrow> (x_B p, y_B p) = k"
        using inv_B_keys [OF inv'] by blast
      have "retrace_steps_B (visited_B s') current = Some ps"
        using retrace_loop_B_trail [OF ps keys, of "[]"] by (simp add: retrace_steps_B_def)
      moreover have "path_from_to (valid_step_B obstacles N M) start p2 ps"
        using trail_B_last [OF ps] trail_B_steps [OF ps] ce by (simp add: path_from_to_def)
      ultimately show ?thesis using False pop pc True
        by (subst navigate_loop_B.simps) simp
    next
      case notgoal: False
      have "inv_B start obstacles N M (expand_B p2 obstacles N M current s')"
        using inv' pc by (rule expand_B_inv)
      from "1.IH" [OF False pop refl refl _ this] notgoal pc
      have "\<exists>r. navigate_loop_B p2 obstacles N M (expand_B p2 obstacles N M current s') = Some r \<and>
             (r = [] \<or> path_from_to (valid_step_B obstacles N M) start p2 r)"
        by simp
      moreover have "navigate_loop_B p2 obstacles N M s =
          navigate_loop_B p2 obstacles N M (expand_B p2 obstacles N M current s')"
        using False pop pc notgoal by (subst navigate_loop_B.simps) auto
      ultimately show ?thesis by simp
    qed
  qed
qed

lemma inv_B_initial:
  "inv_B start obstacles N M
     \<lparr>openpoints_B = [start],
      visited_B = [start \<mapsto> \<lparr>x_B = fst start, y_B = snd start, f_score_B = 0, g_score_B = 0,
                   state_B = 0, parent_B = None\<rparr>]\<rparr>"
proof -
  let ?p = "\<lparr>x_B = fst start, y_B = snd start, f_score_B = 0, g_score_B = 0,
                   state_B = 0, parent_B = None\<rparr>"
  have "trail_B start obstacles N M [start \<mapsto> ?p] start [start]"
    by (rule trail_B.trail_root [of _ _ ?p]) simp_all
  then show ?thesis by (auto simp: inv_B_def split: if_splits)
qed

lemma heappush_Nil: "heappush lt [] item = [item]"
  by (simp add: heappush_def siftdown_def siftdown_loop.simps)

lemma navigate_B_correct:
  "\<exists>r. navigate_B start p2 obstacles N M = Some r \<and>
       (r = [] \<or> path_from_to (valid_step_B obstacles N M) start p2 r)"
  unfolding navigate_B_def Let_def heappush_Nil by (rule navigate_loop_B_correct) (rule inv_B_initial)

section \<open>The waypoint chainers\<close>

text \<open>
  \<open>find_path\<close> of variant A: one list entry per pair of waypoints, an empty entry for
  the first pair without a path, and nothing after it. The loop variable \<open>i\<close> runs
  over \<open>range(len(waypoints) - 1)\<close>.
\<close>

fun find_path_loop_A :: "cell list \<Rightarrow> cell list \<Rightarrow> int \<Rightarrow> int \<Rightarrow> nat list \<Rightarrow> cell list list \<Rightarrow> cell list list option" where
  "find_path_loop_A waypoints obstacles N M [] final_path = Some final_path"
| "find_path_loop_A waypoints obstacles N M (i # rest) final_path =
     (case navigate_A (waypoints ! i) (waypoints ! (i + 1)) obstacles N M of
        None \<Rightarrow> None
      | Some path_segment \<Rightarrow>
          if path_segment \<noteq> []
          then find_path_loop_A waypoints obstacles N M rest (final_path @ [path_segment])
          else Some (final_path @ [[]]))"

definition find_path_A :: "cell list \<Rightarrow> cell list \<Rightarrow> int \<Rightarrow> int \<Rightarrow> cell list list option" where
  "find_path_A waypoints obstacles N M =
     find_path_loop_A waypoints obstacles N M [0..<length waypoints - 1] []"

text \<open>
  \<open>find_path\<close> of variant B. \<open>obstacle_scan_B\<close> is the loop over the obstacles that
  keeps the first one of least \<open>dist\<close>; \<open>min_distance\<close> starts at \<open>float('inf')\<close>,
  here \<open>None\<close>.
\<close>

definition get_path_to_obstacle_B :: "cell \<Rightarrow> cell \<Rightarrow> cell list \<Rightarrow> int \<Rightarrow> int \<Rightarrow> cell list option" where
  "get_path_to_obstacle_B waypoint obstacle obstacles N M =
     (case navigate_B waypoint obstacle obstacles N M of
        None \<Rightarrow> None
      | Some path_to_obstacle \<Rightarrow>
          if path_to_obstacle \<noteq> [] then Some (butlast path_to_obstacle) else Some [])"

fun obstacle_scan_B :: "cell \<Rightarrow> cell \<Rightarrow> cell list \<Rightarrow> cell option \<Rightarrow> real option \<Rightarrow> cell option" where
  "obstacle_scan_B w1 w2 [] obstacle_point min_distance = obstacle_point"
| "obstacle_scan_B w1 w2 (obstacle # rest) obstacle_point min_distance =
     (let dist = math_dist w1 obstacle + math_dist obstacle w2 in
      if (case min_distance of None \<Rightarrow> True | Some m \<Rightarrow> dist < m)
      then obstacle_scan_B w1 w2 rest (Some obstacle) (Some dist)
      else obstacle_scan_B w1 w2 rest obstacle_point min_distance)"

fun find_path_loop_B :: "cell list \<Rightarrow> cell list \<Rightarrow> int \<Rightarrow> int \<Rightarrow> nat list \<Rightarrow> cell list \<Rightarrow> (cell list \<times> bool) option" where
  "find_path_loop_B waypoints obstacles N M [] final_path = Some (final_path, True)"
| "find_path_loop_B waypoints obstacles N M (i # rest) final_path =
     (case navigate_B (waypoints ! i) (waypoints ! (i + 1)) obstacles N M of
        None \<Rightarrow> None
      | Some path_segment \<Rightarrow>
          if path_segment = [] then
            (case obstacle_scan_B (waypoints ! i) (waypoints ! (i + 1)) obstacles None None of
               Some obstacle_point \<Rightarrow>
                 (case get_path_to_obstacle_B (waypoints ! i) obstacle_point obstacles N M of
                    None \<Rightarrow> None
                  | Some path_to_obstacle \<Rightarrow>
                      Some (final_path @ path_to_obstacle @ [obstacle_point], False))
             | None \<Rightarrow> Some (final_path, False))
          else if i = 0
          then find_path_loop_B waypoints obstacles N M rest (final_path @ path_segment)
          else find_path_loop_B waypoints obstacles N M rest (final_path @ tl path_segment))"

definition find_path_B :: "cell list \<Rightarrow> cell list \<Rightarrow> int \<Rightarrow> int \<Rightarrow> (cell list \<times> bool) option" where
  "find_path_B waypoints polygons N M =
     find_path_loop_B waypoints polygons N M [0..<length waypoints - 1] []"

section \<open>The claims\<close>

lemma heappop_single: "heappop lt [item] = Some (item, [])"
  by (simp add: heappop_def)

text \<open>
  C6. When the start cell equals the end cell, \<open>navigate\<close> returns the one-cell path:
  the start node is popped first and is the goal. Both variants.
\<close>

theorem navigate_start_is_end:
  "navigate_A start start obstacles N M = Some [start] \<and>
   navigate_B start start obstacles N M = Some [start]"
proof
  show "navigate_A start start obstacles N M = Some [start]"
    by (cases start)
       (simp add: navigate_A_def navigate_loop_A.simps pop_A_def heappop_single
          retrace_steps_A_def retrace_loop_A.simps Let_def)
  show "navigate_B start start obstacles N M = Some [start]"
    by (cases start)
       (simp add: navigate_B_def navigate_loop_B.simps pop_B_def heappop_single heappush_Nil
          retrace_steps_B_def retrace_loop_B.simps Let_def)
qed

text \<open>
  C10. With fewer than two waypoints the loop over the pairs runs zero times: variant A
  returns the empty list, variant B the empty path with the flag \<open>True\<close>.
\<close>

theorem find_path_few_waypoints:
  "length waypoints < 2 \<Longrightarrow>
   find_path_A waypoints obstacles N M = Some [] \<and>
   find_path_B waypoints obstacles N M = Some ([], True)"
proof -
  assume "length waypoints < 2"
  then have "[0..<length waypoints - 1] = []" by simp
  then show ?thesis by (simp add: find_path_A_def find_path_B_def)
qed

theorem find_path_few_waypoints_witness:
  "length [(1, 1) :: cell] < 2 \<and>
   find_path_A [(1, 1)] [(2, 2)] 40 60 = Some [] \<and>
   find_path_B [(1, 1)] [(2, 2)] 40 60 = Some ([], True)"
  using find_path_few_waypoints [of "[(1, 1)]" "[(2, 2)]" 40 60] by simp

text \<open>
  C4. In variant B a diagonal candidate is rejected when either of the two cells that
  form its corner is an obstacle.
\<close>

theorem neighbors_B_no_corner_cutting:
  "d \<in> set directions \<Longrightarrow> fst d \<noteq> 0 \<Longrightarrow> snd d \<noteq> 0 \<Longrightarrow>
   (x_B p + fst d, y_B p) \<in> set obstacles \<or> (x_B p, y_B p + snd d) \<in> set obstacles \<Longrightarrow>
   (x_B p + fst d, y_B p + snd d) \<notin> set (neighbors_B p obstacles N M)"
proof
  assume d: "fst d \<noteq> 0" "snd d \<noteq> 0"
    and corner: "(x_B p + fst d, y_B p) \<in> set obstacles \<or> (x_B p, y_B p + snd d) \<in> set obstacles"
    and "(x_B p + fst d, y_B p + snd d) \<in> set (neighbors_B p obstacles N M)"
  then have "valid_step_B obstacles N M (x_B p, y_B p) (x_B p + fst d, y_B p + snd d)"
    by (intro neighbors_B_sound)
  with d corner show False by (simp add: valid_step_B_def)
qed

theorem neighbors_B_no_corner_cutting_witness:
  "(1, 1) \<in> set directions \<and>
   (2, 2) \<notin> set (neighbors_B \<lparr>x_B = 1, y_B = 1, f_score_B = 0, g_score_B = 0, state_B = 0,
                    parent_B = None\<rparr> [(2, 1)] 5 5) \<and>
   (1, 2) \<in> set (neighbors_B \<lparr>x_B = 1, y_B = 1, f_score_B = 0, g_score_B = 0, state_B = 0,
                    parent_B = None\<rparr> [(2, 1)] 5 5)"
proof -
  let ?p = "\<lparr>x_B = 1, y_B = 1, f_score_B = 0, g_score_B = 0, state_B = 0, parent_B = None\<rparr>"
  have d: "(1, 1) \<in> set directions" by (simp add: directions_def)
  have "(2, 2) \<notin> set (neighbors_B ?p [(2, 1)] 5 5)"
    using neighbors_B_no_corner_cutting [OF d, of ?p "[(2, 1)]" 5 5] by simp
  moreover have "(1, 2) \<in> set (neighbors_B ?p [(2, 1)] 5 5)"
    by (simp add: neighbors_B_def directions_def Let_def)
  ultimately show ?thesis using d by simp
qed

end
